theory Spec2Isabelle
  imports Main "HOL-Library.AList" "HOL-Library.Multiset"
begin

section \<open>The fixed thread pool executor of \<open>file_tree/utils.py\<close>\<close>

text \<open>
  The development embeds \<open>FixedThreadPoolExecutor\<close> and \<open>ThreadedWorker\<close>.
  The executor object, the queue it owns and the worker threads form one state; the
  threads and the one calling thread interleave, one atomic action at a time. Wall-clock
  time is left out: a \<open>get\<close> that finds the queue empty is the \<open>get\<close> whose timeout
  expired. Callables are pure with respect to the executor: calling one yields a value,
  an \<open>Exception\<close>, or an exception outside the \<open>Exception\<close> hierarchy.
\<close>

subsection \<open>Values, exceptions, tasks\<close>

datatype ('r, 'e) outcome = Returned 'r | Raised 'e | Raised_base 'e

type_synonym ('a, 'k, 'r, 'e) func = "'a \<Rightarrow> 'k \<Rightarrow> ('r, 'e) outcome"

text \<open>A queue entry: the tuple \<open>(id, func, args, kwargs)\<close> or the marker \<open>_CYANIDE\<close>.\<close>

datatype ('a, 'k, 'r, 'e) item = Task nat "('a, 'k, 'r, 'e) func" 'a 'k | CYANIDE

datatype 'e exn = AttributeError | TypeError | ValueError | KeyError | Task_exception 'e

datatype ('r, 'e) pyval =
  V_None | V_bool bool | V_self | V_returns "'r list" | V_exceptions "'e list"

datatype ('r, 'e) reply = Returns "('r, 'e) pyval" | Raises "'e exn"

subsection \<open>\<open>queue.Queue\<close> of the standard library\<close>

text \<open>
  An unbounded FIFO with the counter \<open>unfinished_tasks\<close>: \<open>put\<close> appends and counts every
  entry, \<open>get\<close> takes the oldest entry or signals \<open>Empty\<close> (here \<open>None\<close>) when the
  timeout expires on an empty queue, \<open>task_done\<close> counts down and raises \<open>ValueError\<close>
  when called more often than \<open>put\<close>, \<open>join\<close> returns once the counter is zero.
\<close>

record 'i queue =
  items :: "'i list"
  unfinished_tasks :: nat

definition Queue :: "'i queue" where
  "Queue = \<lparr>items = [], unfinished_tasks = 0\<rparr>"

definition put :: "'i \<Rightarrow> 'i queue \<Rightarrow> 'i queue" where
  "put x q = q\<lparr>items := items q @ [x], unfinished_tasks := unfinished_tasks q + 1\<rparr>"

definition get :: "'i queue \<Rightarrow> ('i \<times> 'i queue) option" where
  "get q = (case items q of [] \<Rightarrow> None | x # xs \<Rightarrow> Some (x, q\<lparr>items := xs\<rparr>))"

definition task_done :: "'i queue \<Rightarrow> 'e exn + 'i queue" where
  "task_done q =
     (if unfinished_tasks q = 0 then Inl ValueError
      else Inr (q\<lparr>unfinished_tasks := unfinished_tasks q - 1\<rparr>))"

definition join_returns :: "'i queue \<Rightarrow> bool" where
  "join_returns q = (unfinished_tasks q = 0)"

subsection \<open>Worker threads\<close>

text \<open>
  The program points of \<open>ThreadedWorker.run\<close>, with \<open>_execute_next_task\<close> and
  \<open>_execute_task\<close> inlined. \<open>Exited r\<close> is a thread whose \<open>run\<close> has returned, \<open>r\<close>
  being the last result of \<open>_execute_next_task\<close>; the two \<open>Crashed\<close> points are threads
  ended by an exception that nothing caught.
\<close>

datatype ('a, 'k, 'r, 'e) wpc =
    At_get
  | At_call nat "('a, 'k, 'r, 'e) func" 'a 'k
  | At_task_done
  | At_check
  | Exited "bool option"
  | Crashed_in_call nat
  | Crashed_in_task_done

record ('a, 'k, 'r, 'e) worker =
  keyboard_interrupted :: bool
  pc :: "('a, 'k, 'r, 'e) wpc"

fun running :: "('a, 'k, 'r, 'e) wpc \<Rightarrow> bool" where
  "running At_get = True"
| "running (At_call i f a k) = True"
| "running At_task_done = True"
| "running At_check = True"
| "running (Exited r) = False"
| "running (Crashed_in_call i) = False"
| "running Crashed_in_task_done = False"

definition thread_is_alive :: "('a, 'k, 'r, 'e) worker \<Rightarrow> bool" where
  "thread_is_alive w = running (pc w)"

definition ThreadedWorker :: "('a, 'k, 'r, 'e) worker" where
  "ThreadedWorker = \<lparr>keyboard_interrupted = False, pc = At_get\<rparr>"

subsection \<open>The executor and the calling thread\<close>

datatype frame = By_close | By_terminate | By_exit

datatype cpc =
    Ready
  | In_drain
  | In_close_drain frame
  | In_close_test frame
  | In_close_put frame
  | In_terminate "nat list"
  | In_stop_join "nat list"

record ('a, 'k, 'r, 'e) state =
  pool_size :: nat
  print_exceptions :: bool
  task_count :: nat
  returns_map :: "(nat \<times> 'r) list"
  exceptions_map :: "(nat \<times> 'e) list"
  id_creator :: nat
  tasks :: "('a, 'k, 'r, 'e) item queue"
  run_event :: bool
  workers :: "nat list option"
  threads :: "('a, 'k, 'r, 'e) worker list"
  stderr :: "'e list"
  caller :: cpc
  reply :: "('r, 'e) reply"

text \<open>\<open>__init__\<close>: the fields, then \<open>size\<close> workers, each started by its constructor.\<close>

definition init :: "nat \<Rightarrow> bool \<Rightarrow> ('a, 'k, 'r, 'e) state" where
  "init n p =
     \<lparr>pool_size = n, print_exceptions = p, task_count = 0,
      returns_map = [], exceptions_map = [], id_creator = 0,
      tasks = Queue, run_event = False,
      workers = Some [0..<n], threads = replicate n ThreadedWorker,
      stderr = [], caller = Ready, reply = Returns V_self\<rparr>"

text \<open>The names an executor object answers to: what \<open>__init__\<close> assigns and the class defines.\<close>

definition executor_attributes :: "string list" where
  "executor_attributes =
     [''size'', ''timeout'', ''print_exceptions'', ''task_count'', ''_returns'',
      ''_exceptions'', ''_id_creator'', ''_lock'', ''_tasks'', ''_run_event'', ''_workers'',
      ''submit'', ''close'', ''stop'', ''terminate'', ''drain'', ''is_alive'', ''returns'',
      ''exceptions'', ''raise_first'', ''_CYANIDE'', ''_execute_next_task'',
      ''_execute_task'', ''__enter__'', ''__exit__'']"

definition hasattr :: "string \<Rightarrow> bool" where
  "hasattr name = (name \<in> set executor_attributes)"

text \<open>\<open>submit\<close>: count the task, draw the next id, enqueue the tuple.\<close>

definition submit ::
  "('a, 'k, 'r, 'e) func \<Rightarrow> 'a \<Rightarrow> 'k \<Rightarrow> ('a, 'k, 'r, 'e) state \<Rightarrow> ('a, 'k, 'r, 'e) state" where
  "submit f a k s =
     s\<lparr>task_count := task_count s + 1,
       id_creator := Suc (id_creator s),
       tasks := put (Task (id_creator s) f a k) (tasks s)\<rparr>"

text \<open>\<open>is_alive\<close>: iterating \<open>_workers\<close> raises \<open>TypeError\<close> when it is \<open>None\<close>.\<close>

definition is_alive :: "('a, 'k, 'r, 'e) state \<Rightarrow> 'e exn + bool" where
  "is_alive s =
     (case workers s of
        None \<Rightarrow> Inl TypeError
      | Some ws \<Rightarrow> Inr (list_ex (\<lambda>w. thread_is_alive (threads s ! w)) ws))"

text \<open>The views: \<open>[d[k] for k in sorted(d)]\<close> over an insertion-ordered dictionary.\<close>

definition getitem :: "(nat \<times> 'v) list \<Rightarrow> nat \<Rightarrow> 'e exn + 'v" where
  "getitem d k = (case map_of d k of None \<Rightarrow> Inl KeyError | Some v \<Rightarrow> Inr v)"

fun collect :: "('x + 'v) list \<Rightarrow> 'x + 'v list" where
  "collect [] = Inr []"
| "collect (Inl x # rs) = Inl x"
| "collect (Inr v # rs) = (case collect rs of Inl x \<Rightarrow> Inl x | Inr vs \<Rightarrow> Inr (v # vs))"

definition view :: "(nat \<times> 'v) list \<Rightarrow> 'e exn + 'v list" where
  "view d = collect (map (getitem d) (sort (map fst d)))"

definition returns :: "('a, 'k, 'r, 'e) state \<Rightarrow> 'e exn + 'r list" where
  "returns s = view (returns_map s)"

definition exceptions :: "('a, 'k, 'r, 'e) state \<Rightarrow> 'e exn + 'e list" where
  "exceptions s = view (exceptions_map s)"

definition raise_first :: "('a, 'k, 'r, 'e) state \<Rightarrow> 'e exn + unit" where
  "raise_first s =
     (case exceptions s of
        Inl x \<Rightarrow> Inl x
      | Inr [] \<Rightarrow> Inr ()
      | Inr (e # es) \<Rightarrow> Inl (Task_exception e))"

text \<open>
  \<open>stop\<close> reads \<open>self.run_event\<close>; the lookup fails when the object has no such
  attribute. Past the lookup it sets the event and joins the workers in turn.
\<close>

definition stop :: "('a, 'k, 'r, 'e) state \<Rightarrow> ('a, 'k, 'r, 'e) state" where
  "stop s =
     (if \<not> hasattr ''run_event'' then s\<lparr>reply := Raises AttributeError\<rparr>
      else case workers s of
        None \<Rightarrow> s\<lparr>run_event := True, reply := Raises TypeError\<rparr>
      | Some ws \<Rightarrow> s\<lparr>run_event := True, caller := In_stop_join ws\<rparr>)"

text \<open>What the outermost frame returns once \<open>close\<close> has returned: \<open>__exit__\<close> returns \<open>False\<close>.\<close>

fun return_value :: "frame \<Rightarrow> ('r, 'e) pyval" where
  "return_value By_close = V_None"
| "return_value By_terminate = V_None"
| "return_value By_exit = V_bool False"

subsection \<open>One step of a worker\<close>

definition set_pc ::
  "nat \<Rightarrow> ('a, 'k, 'r, 'e) wpc \<Rightarrow> ('a, 'k, 'r, 'e) state \<Rightarrow> ('a, 'k, 'r, 'e) state" where
  "set_pc i p s = s\<lparr>threads := (threads s)[i := (threads s ! i)\<lparr>pc := p\<rparr>]\<rparr>"

text \<open>Python truth of the result of \<open>_execute_next_task\<close>: \<open>None\<close> is false.\<close>

fun truthy :: "bool option \<Rightarrow> bool" where
  "truthy None = False"
| "truthy (Some b) = b"

text \<open>The test of \<open>run\<close>: \<open>not result or keyboard_interrupted or run_event.is_set()\<close>.\<close>

definition run_breaks :: "bool option \<Rightarrow> bool \<Rightarrow> bool \<Rightarrow> bool" where
  "run_breaks r ki ev = (\<not> truthy r \<or> ki \<or> ev)"

definition loop_test ::
  "bool option \<Rightarrow> nat \<Rightarrow> ('a, 'k, 'r, 'e) state \<Rightarrow> ('a, 'k, 'r, 'e) state" where
  "loop_test r i s =
     (if run_breaks r (keyboard_interrupted (threads s ! i)) (run_event s)
      then set_pc i (Exited r) s else set_pc i At_get s)"

text \<open>The body of \<open>_execute_task\<close> up to \<open>task_done\<close>.\<close>

definition execute_task ::
  "nat \<Rightarrow> nat \<Rightarrow> ('a, 'k, 'r, 'e) func \<Rightarrow> 'a \<Rightarrow> 'k \<Rightarrow> ('a, 'k, 'r, 'e) state
     \<Rightarrow> ('a, 'k, 'r, 'e) state" where
  "execute_task i n f a k s =
     (case f a k of
        Returned r \<Rightarrow>
          set_pc i At_task_done (s\<lparr>returns_map := AList.update n r (returns_map s)\<rparr>)
      | Raised e \<Rightarrow>
          set_pc i At_task_done
            (s\<lparr>exceptions_map := AList.update n e (exceptions_map s),
               stderr := (if print_exceptions s then stderr s @ [e] else stderr s)\<rparr>)
      | Raised_base e \<Rightarrow> set_pc i (Crashed_in_call n) s)"

definition execute_next_task ::
  "nat \<Rightarrow> ('a, 'k, 'r, 'e) state \<Rightarrow> ('a, 'k, 'r, 'e) state" where
  "execute_next_task i s =
     (case get (tasks s) of
        None \<Rightarrow> loop_test None i s
      | Some (CYANIDE, q) \<Rightarrow> loop_test (Some False) i (s\<lparr>tasks := q\<rparr>)
      | Some (Task n f a k, q) \<Rightarrow> set_pc i (At_call n f a k) (s\<lparr>tasks := q\<rparr>))"

definition worker_step ::
  "nat \<Rightarrow> ('a, 'k, 'r, 'e) state \<Rightarrow> ('a, 'k, 'r, 'e) state option" where
  "worker_step i s =
     (if length (threads s) \<le> i then None
      else case pc (threads s ! i) of
        At_get \<Rightarrow> Some (execute_next_task i s)
      | At_call n f a k \<Rightarrow> Some (execute_task i n f a k s)
      | At_task_done \<Rightarrow>
          (case task_done (tasks s) :: 'e exn + ('a, 'k, 'r, 'e) item queue of
             Inl x \<Rightarrow> Some (set_pc i Crashed_in_task_done s)
           | Inr q \<Rightarrow> Some (set_pc i At_check (s\<lparr>tasks := q\<rparr>)))
      | At_check \<Rightarrow> Some (loop_test (Some True) i s)
      | Exited r \<Rightarrow> None
      | Crashed_in_call n \<Rightarrow> None
      | Crashed_in_task_done \<Rightarrow> None)"

subsection \<open>One step of the calling thread\<close>

datatype ('a, 'k, 'r, 'e) call =
    Submit "('a, 'k, 'r, 'e) func" 'a 'k
  | Drain
  | Close
  | Stop
  | Terminate
  | Is_alive
  | Get_returns
  | Get_exceptions
  | Raise_first
  | Enter
  | Exit "'e exn option"

definition reply_of :: "('v \<Rightarrow> ('r, 'e) pyval) \<Rightarrow> 'e exn + 'v \<Rightarrow> ('r, 'e) reply" where
  "reply_of mk r = (case r of Inl x \<Rightarrow> Raises x | Inr v \<Rightarrow> Returns (mk v))"

fun call_step ::
  "('a, 'k, 'r, 'e) call \<Rightarrow> ('a, 'k, 'r, 'e) state \<Rightarrow> ('a, 'k, 'r, 'e) state" where
  "call_step (Submit f a k) s = (submit f a k s)\<lparr>reply := Returns V_None\<rparr>"
| "call_step Drain s = s\<lparr>caller := In_drain\<rparr>"
| "call_step Close s = s\<lparr>caller := In_close_drain By_close\<rparr>"
| "call_step Stop s = stop s"
| "call_step Terminate s =
     (case workers s of
        None \<Rightarrow> s\<lparr>reply := Raises TypeError\<rparr>
      | Some ws \<Rightarrow> s\<lparr>caller := In_terminate ws\<rparr>)"
| "call_step Is_alive s = s\<lparr>reply := reply_of V_bool (is_alive s)\<rparr>"
| "call_step Get_returns s = s\<lparr>reply := reply_of V_returns (returns s)\<rparr>"
| "call_step Get_exceptions s = s\<lparr>reply := reply_of V_exceptions (exceptions s)\<rparr>"
| "call_step Raise_first s = s\<lparr>reply := reply_of (\<lambda>u. V_None) (raise_first s)\<rparr>"
| "call_step Enter s = s\<lparr>reply := Returns V_self\<rparr>"
| "call_step (Exit info) s = s\<lparr>caller := In_close_drain By_exit\<rparr>"

text \<open>
  The calling thread inside a blocking call: \<open>join\<close> waits for the counter, the loop of
  \<open>close\<close> tests \<open>is_alive\<close> and enqueues one marker per round, then drops the workers.
\<close>

fun resume_step :: "cpc \<Rightarrow> ('a, 'k, 'r, 'e) state \<Rightarrow> ('a, 'k, 'r, 'e) state option" where
  "resume_step Ready s = None"
| "resume_step In_drain s =
     (if join_returns (tasks s) then Some (s\<lparr>caller := Ready, reply := Returns V_None\<rparr>)
      else None)"
| "resume_step (In_close_drain fr) s =
     (if join_returns (tasks s) then Some (s\<lparr>caller := In_close_test fr\<rparr>) else None)"
| "resume_step (In_close_test fr) s =
     (case is_alive s of
        Inl x \<Rightarrow> Some (s\<lparr>caller := Ready, reply := Raises x\<rparr>)
      | Inr True \<Rightarrow> Some (s\<lparr>caller := In_close_put fr\<rparr>)
      | Inr False \<Rightarrow>
          Some (s\<lparr>workers := None, caller := Ready, reply := Returns (return_value fr)\<rparr>))"
| "resume_step (In_close_put fr) s =
     Some (s\<lparr>tasks := put CYANIDE (tasks s), caller := In_close_test fr\<rparr>)"
| "resume_step (In_terminate []) s = Some (s\<lparr>caller := In_close_drain By_terminate\<rparr>)"
| "resume_step (In_terminate (w # ws)) s =
     Some (s\<lparr>threads := (threads s)[w := (threads s ! w)\<lparr>keyboard_interrupted := True\<rparr>],
             caller := In_terminate ws\<rparr>)"
| "resume_step (In_stop_join []) s = Some (s\<lparr>caller := Ready, reply := Returns V_None\<rparr>)"
| "resume_step (In_stop_join (w # ws)) s =
     (if thread_is_alive (threads s ! w) then None else Some (s\<lparr>caller := In_stop_join ws\<rparr>))"

subsection \<open>Interleavings\<close>

datatype ('a, 'k, 'r, 'e) event =
    Worker nat
  | Call "('a, 'k, 'r, 'e) call"
  | Resume

fun step ::
  "('a, 'k, 'r, 'e) event \<Rightarrow> ('a, 'k, 'r, 'e) state \<Rightarrow> ('a, 'k, 'r, 'e) state option" where
  "step (Worker i) s = worker_step i s"
| "step (Call c) s = (if caller s = Ready then Some (call_step c s) else None)"
| "step Resume s = resume_step (caller s) s"

fun run ::
  "('a, 'k, 'r, 'e) event list \<Rightarrow> ('a, 'k, 'r, 'e) state \<Rightarrow> ('a, 'k, 'r, 'e) state option" where
  "run [] s = Some s"
| "run (ev # evs) s = (case step ev s of None \<Rightarrow> None | Some s' \<Rightarrow> run evs s')"

subsection \<open>The \<open>with\<close> statement\<close>



subsection \<open>Measures of a state and of a run\<close>



text \<open>The ids of the tasks in a queue, and the number of markers in it.\<close>

fun task_ids :: "('a, 'k, 'r, 'e) item list \<Rightarrow> nat list" where
  "task_ids [] = []"
| "task_ids (Task n f a k # xs) = n # task_ids xs"
| "task_ids (CYANIDE # xs) = task_ids xs"

fun sentinels :: "('a, 'k, 'r, 'e) item list \<Rightarrow> nat" where
  "sentinels [] = 0"
| "sentinels (Task n f a k # xs) = sentinels xs"
| "sentinels (CYANIDE # xs) = Suc (sentinels xs)"

text \<open>
  What a thread has taken from the queue: \<open>holding\<close> is the id of a task whose outcome is
  not recorded, \<open>unmarked\<close> counts a task not yet marked done, \<open>poisoned\<close> counts a marker.
\<close>

fun holding :: "('a, 'k, 'r, 'e) wpc \<Rightarrow> nat list" where
  "holding (At_call n f a k) = [n]"
| "holding (Crashed_in_call n) = [n]"
| "holding p = []"

fun unmarked :: "('a, 'k, 'r, 'e) wpc \<Rightarrow> nat" where
  "unmarked (At_call n f a k) = 1"
| "unmarked At_task_done = 1"
| "unmarked (Crashed_in_call n) = 1"
| "unmarked Crashed_in_task_done = 1"
| "unmarked p = 0"

fun poisoned :: "('a, 'k, 'r, 'e) wpc \<Rightarrow> nat" where
  "poisoned (Exited (Some False)) = 1"
| "poisoned p = 0"

definition owed :: "('a, 'k, 'r, 'e) wpc \<Rightarrow> nat" where
  "owed p = unmarked p + poisoned p"

definition in_flight :: "('a, 'k, 'r, 'e) state \<Rightarrow> nat" where
  "in_flight s = sum_list (map (\<lambda>w. owed (pc w)) (threads s))"

definition tasks_unmarked :: "('a, 'k, 'r, 'e) state \<Rightarrow> nat" where
  "tasks_unmarked s = sum_list (map (\<lambda>w. unmarked (pc w)) (threads s))"

definition sentinels_taken :: "('a, 'k, 'r, 'e) state \<Rightarrow> nat" where
  "sentinels_taken s = sum_list (map (\<lambda>w. poisoned (pc w)) (threads s))"

definition held_ids :: "('a, 'k, 'r, 'e) state \<Rightarrow> nat list" where
  "held_ids s = concat (map (\<lambda>w. holding (pc w)) (threads s))"

definition all_ids :: "('a, 'k, 'r, 'e) state \<Rightarrow> nat list" where
  "all_ids s =
     task_ids (items (tasks s)) @ held_ids s
       @ map fst (returns_map s) @ map fst (exceptions_map s)"

text \<open>
  The accounting invariant: the counter of the queue is its length plus what the threads
  have taken and not marked done; every id drawn so far is in the queue, in a thread's
  hands, or a key of one of the two dictionaries, once.
\<close>

definition accounted :: "('a, 'k, 'r, 'e) state \<Rightarrow> bool" where
  "accounted s =
     (unfinished_tasks (tasks s) = length (items (tasks s)) + in_flight s
      \<and> mset (all_ids s) = mset [0..<id_creator s]
      \<and> task_count s = id_creator s)"

text \<open>The worker collection is every thread of the pool, or \<open>None\<close> once all have ended.\<close>

definition no_live_thread :: "('a, 'k, 'r, 'e) state \<Rightarrow> bool" where
  "no_live_thread s = (\<not> list_ex thread_is_alive (threads s))"

definition workers_ok :: "('a, 'k, 'r, 'e) state \<Rightarrow> bool" where
  "workers_ok s =
     (case workers s of
        None \<Rightarrow> no_live_thread s
      | Some ws \<Rightarrow> ws = [0..<length (threads s)])"

text \<open>The values of a dictionary in the order of its keys, as the specification words it.\<close>

definition by_id :: "(nat \<times> 'v) list \<Rightarrow> 'v list" where
  "by_id d = map snd (sort_key fst d)"





section \<open>Evaluation of concrete runs\<close>

lemmas run_simps =
  init_def Queue_def ThreadedWorker_def worker_step_def execute_next_task_def
  execute_task_def loop_test_def run_breaks_def set_pc_def get_def put_def task_done_def
  join_returns_def is_alive_def thread_is_alive_def stop_def hasattr_def
  executor_attributes_def submit_def reply_of_def

section \<open>The accounting invariant\<close>

lemma owed_simps [simp]:
  "owed At_get = 0"
  "owed (At_call n f a k) = 1"
  "owed At_task_done = 1"
  "owed At_check = 0"
  "owed (Exited r) = (if r = Some False then 1 else 0)"
  "owed (Crashed_in_call n) = 1"
  "owed Crashed_in_task_done = 1"
proof -
  show "owed (Exited r) = (if r = Some False then 1 else 0)"
  proof (cases r)
    case None then show ?thesis by (simp add: owed_def)
  next
    case (Some b) then show ?thesis by (cases b) (simp_all add: owed_def)
  qed
qed (simp_all add: owed_def)

lemma sum_list_update_shift:
  "i < length xs \<Longrightarrow> sum_list (map g (xs[i := x])) + g (xs ! i) = sum_list (map g xs) + (g x :: nat)"
proof (induction xs arbitrary: i)
  case Nil then show ?case by simp
next
  case (Cons y ys) then show ?case by (cases i) (simp_all add: algebra_simps)
qed

lemma mset_concat_update_shift:
  "i < length xs \<Longrightarrow>
     mset (concat (map g (xs[i := x]))) + mset (g (xs ! i)) = mset (concat (map g xs)) + mset (g x)"
proof (induction xs arbitrary: i)
  case Nil then show ?case by simp
next
  case (Cons y ys) then show ?case by (cases i) (simp_all add: algebra_simps)
qed

lemma in_flight_set_pc:
  "i < length (threads s) \<Longrightarrow>
     in_flight (set_pc i p s) + owed (pc (threads s ! i)) = in_flight s + owed p"
  using sum_list_update_shift [of i "threads s" "\<lambda>w. owed (pc w)" "(threads s ! i)\<lparr>pc := p\<rparr>"]
  by (simp add: in_flight_def set_pc_def)

lemma held_ids_set_pc:
  "i < length (threads s) \<Longrightarrow>
     mset (held_ids (set_pc i p s)) + mset (holding (pc (threads s ! i)))
       = mset (held_ids s) + mset (holding p)"
  using mset_concat_update_shift [of i "threads s" "\<lambda>w. holding (pc w)" "(threads s ! i)\<lparr>pc := p\<rparr>"]
  by (simp add: held_ids_def set_pc_def)

lemma set_pc_fields [simp]:
  "tasks (set_pc i p s) = tasks s"
  "returns_map (set_pc i p s) = returns_map s"
  "exceptions_map (set_pc i p s) = exceptions_map s"
  "id_creator (set_pc i p s) = id_creator s"
  "task_count (set_pc i p s) = task_count s"
  "workers (set_pc i p s) = workers s"
  "caller (set_pc i p s) = caller s"
  "reply (set_pc i p s) = reply s"
  "run_event (set_pc i p s) = run_event s"
  "length (threads (set_pc i p s)) = length (threads s)"
  by (simp_all add: set_pc_def)

lemma map_pc_flag_update:
  "map (\<lambda>w. g (pc w)) (ts[w := (ts ! w)\<lparr>keyboard_interrupted := b\<rparr>]) = map (\<lambda>w. g (pc w)) ts"
proof (cases "w < length ts")
  case True then show ?thesis by (simp add: map_update list_update_same_conv)
next
  case False
  then have "length ts \<le> w" by simp
  then show ?thesis by (simp add: list_update_beyond)
qed

lemma flag_update_measures:
  "in_flight (s\<lparr>threads := (threads s)[w := (threads s ! w)\<lparr>keyboard_interrupted := True\<rparr>], caller := c\<rparr>) = in_flight s"
  "held_ids (s\<lparr>threads := (threads s)[w := (threads s ! w)\<lparr>keyboard_interrupted := True\<rparr>], caller := c\<rparr>) = held_ids s"
  by (simp_all add: in_flight_def held_ids_def map_pc_flag_update)

lemma task_ids_append [simp]: "task_ids (xs @ ys) = task_ids xs @ task_ids ys"
  by (induction xs rule: task_ids.induct) simp_all

lemma accounted_init: "accounted (init n p)"
  by (simp add: accounted_def init_def Queue_def in_flight_def all_ids_def held_ids_def ThreadedWorker_def)

lemma loop_test_cases:
  "loop_test r i s = set_pc i (Exited r) s \<or> (r = Some True \<and> loop_test r i s = set_pc i At_get s)"
  by (cases r) (auto simp: loop_test_def run_breaks_def)

lemma ids_distinct:
  assumes "mset (all_ids s) = mset [0..<id_creator s]"
  shows "distinct (all_ids s)"
proof -
  have "distinct [0..<id_creator s]" by simp
  with assms show ?thesis using mset_eq_imp_distinct_iff by blast
qed

lemma held_id_fresh:
  assumes "accounted s" and "i < length (threads s)" and "n \<in> set (holding (pc (threads s ! i)))"
  shows "n \<notin> fst ` set (returns_map s)" and "n \<notin> fst ` set (exceptions_map s)"
proof -
  have d: "distinct (all_ids s)" using assms(1) ids_distinct [of s] by (simp add: accounted_def del: mset_upt)
  have "n \<in> set (held_ids s)"
    using assms(2,3) by (auto simp: held_ids_def intro!: bexI [of _ "threads s ! i"])
  with d show "n \<notin> fst ` set (returns_map s)" and "n \<notin> fst ` set (exceptions_map s)"
    by (auto simp: all_ids_def)
qed

lemma accounted_set_pc:
  assumes i: "i < length (threads s1)"
    and cnt: "unfinished_tasks (tasks s1) + owed (pc (threads s1 ! i))
               = length (items (tasks s1)) + in_flight s1 + owed p"
    and ids: "mset (all_ids s1) + mset (holding p)
               = mset [0..<id_creator s1] + mset (holding (pc (threads s1 ! i)))"
    and tc: "task_count s1 = id_creator s1"
  shows "accounted (set_pc i p s1)"
proof -
  have a: "in_flight (set_pc i p s1) + owed (pc (threads s1 ! i)) = in_flight s1 + owed p"
    using i by (rule in_flight_set_pc)
  have b: "mset (held_ids (set_pc i p s1)) + mset (holding (pc (threads s1 ! i)))
       = mset (held_ids s1) + mset (holding p)"
    using i by (rule held_ids_set_pc)
  have c1: "unfinished_tasks (tasks (set_pc i p s1))
       = length (items (tasks (set_pc i p s1))) + in_flight (set_pc i p s1)"
    using a cnt by simp
  have "mset (all_ids (set_pc i p s1)) + mset (holding (pc (threads s1 ! i)))
       = mset (all_ids s1) + mset (holding p)"
    using b by (simp add: all_ids_def)
  then have "mset (all_ids (set_pc i p s1)) + mset (holding (pc (threads s1 ! i)))
       = mset [0..<id_creator s1] + mset (holding (pc (threads s1 ! i)))"
    using ids by (simp del: mset_upt)
  then have c2: "mset (all_ids (set_pc i p s1)) = mset [0..<id_creator (set_pc i p s1)]"
    by (simp del: mset_upt)
  show ?thesis
    unfolding accounted_def using c1 c2 tc by (simp del: mset_upt)
qed


lemma owed_le_in_flight:
  "i < length (threads s) \<Longrightarrow> owed (pc (threads s ! i)) \<le> in_flight s"
proof -
  assume "i < length (threads s)"
  then have "owed (pc (threads s ! i)) \<in> set (map (\<lambda>w. owed (pc w)) (threads s))"
    by (auto simp: image_iff intro!: bexI [of _ "threads s ! i"])
  then show ?thesis unfolding in_flight_def by (intro member_le_sum_list) simp_all
qed

lemma accounted_loop_test:
  assumes "accounted s1" "i < length (threads s1)" "owed (pc (threads s1 ! i)) = 0"
    "holding (pc (threads s1 ! i)) = []" "r \<noteq> Some False"
  shows "accounted (loop_test r i s1)"
proof -
  have o: "owed (Exited r :: ('a, 'b, 'c, 'd) wpc) = 0"
    using assms(5) by (cases r) auto
  have "accounted (set_pc i (Exited r) s1)"
    using assms o by (intro accounted_set_pc) (simp_all add: accounted_def del: mset_upt)
  moreover have "accounted (set_pc i At_get s1)"
    using assms by (intro accounted_set_pc) (simp_all add: accounted_def del: mset_upt)
  ultimately show ?thesis using loop_test_cases [of r i s1] by auto
qed

lemma accounted_execute_next_task:
  assumes acc: "accounted s" and i: "i < length (threads s)" and pc: "pc (threads s ! i) = At_get"
  shows "accounted (execute_next_task i s)"
proof (cases "items (tasks s)")
  case Nil
  then show ?thesis
    using accounted_loop_test [of s i None] assms
    by (simp add: execute_next_task_def get_def)
next
  case (Cons x xs)
  let ?s1 = "s\<lparr>tasks := (tasks s)\<lparr>items := xs\<rparr>\<rparr>"
  show ?thesis
  proof (cases x)
    case CYANIDE
    have "accounted (set_pc i (Exited (Some False)) ?s1)"
      using assms Cons CYANIDE
      by (intro accounted_set_pc)
         (simp_all add: accounted_def in_flight_def all_ids_def held_ids_def del: mset_upt)
    then show ?thesis
      using Cons CYANIDE
      by (simp add: execute_next_task_def get_def loop_test_def run_breaks_def)
  next
    case (Task n f a k)
    have "accounted (set_pc i (At_call n f a k) ?s1)"
      using assms Cons Task
      by (intro accounted_set_pc)
         (simp_all add: accounted_def in_flight_def all_ids_def held_ids_def del: mset_upt)
    then show ?thesis
      using Cons Task by (simp add: execute_next_task_def get_def)
  qed
qed

lemma accounted_execute_task:
  assumes acc: "accounted s" and i: "i < length (threads s)"
    and pc: "pc (threads s ! i) = At_call n f a k"
  shows "accounted (execute_task i n f a k s)"
proof -
  have fr: "n \<notin> fst ` set (returns_map s)" "n \<notin> fst ` set (exceptions_map s)"
    using held_id_fresh [OF acc i, of n] pc by simp_all
  show ?thesis
  proof (cases "f a k")
    case (Returned r)
    have "accounted (set_pc i At_task_done (s\<lparr>returns_map := AList.update n r (returns_map s)\<rparr>))"
      using assms fr
      by (intro accounted_set_pc)
         (simp_all add: accounted_def in_flight_def all_ids_def held_ids_def update_keys
            del: mset_upt)
    then show ?thesis using Returned by (simp add: execute_task_def)
  next
    case (Raised e)
    have "accounted (set_pc i At_task_done
            (s\<lparr>exceptions_map := AList.update n e (exceptions_map s), stderr := l\<rparr>))" for l
      using assms fr
      by (intro accounted_set_pc)
         (simp_all add: accounted_def in_flight_def all_ids_def held_ids_def update_keys
            del: mset_upt)
    then show ?thesis using Raised by (simp add: execute_task_def)
  next
    case (Raised_base e)
    have "accounted (set_pc i (Crashed_in_call n) s)"
      using assms
      by (intro accounted_set_pc) (simp_all add: accounted_def del: mset_upt)
    then show ?thesis using Raised_base by (simp add: execute_task_def)
  qed
qed

lemma accounted_worker_step:
  assumes acc: "accounted s" and st: "worker_step i s = Some s'"
  shows "accounted s'"
proof -
  have i: "i < length (threads s)"
    using st by (auto simp: worker_step_def split: if_splits)
  show ?thesis
  proof (cases "pc (threads s ! i)")
    case At_get
    then show ?thesis
      using st i accounted_execute_next_task [OF acc i] by (simp add: worker_step_def)
  next
    case (At_call n f a k)
    then show ?thesis
      using st i accounted_execute_task [OF acc i] by (simp add: worker_step_def)
  next
    case At_task_done
    have "1 \<le> in_flight s" using owed_le_in_flight [OF i] At_task_done by simp
    then have pos: "unfinished_tasks (tasks s) \<noteq> 0" using acc by (simp add: accounted_def)
    let ?s1 = "s\<lparr>tasks := (tasks s)\<lparr>unfinished_tasks := unfinished_tasks (tasks s) - 1\<rparr>\<rparr>"
    have fl: "in_flight ?s1 = in_flight s" and ids: "all_ids ?s1 = all_ids s"
      by (simp_all add: in_flight_def all_ids_def held_ids_def)
    have "accounted (set_pc i At_check ?s1)"
    proof (rule accounted_set_pc)
      show "i < length (threads ?s1)" using i by simp
      show "unfinished_tasks (tasks ?s1) + owed (pc (threads ?s1 ! i))
              = length (items (tasks ?s1)) + in_flight ?s1 + owed (At_check :: ('a, 'b, 'c, 'd) wpc)"
        using acc pos At_task_done unfolding fl by (simp add: accounted_def)
      show "mset (all_ids ?s1) + mset (holding (At_check :: ('a, 'b, 'c, 'd) wpc))
              = mset [0..<id_creator ?s1] + mset (holding (pc (threads ?s1 ! i)))"
        using acc At_task_done unfolding ids by (simp add: accounted_def del: mset_upt)
      show "task_count ?s1 = id_creator ?s1" using acc by (simp add: accounted_def)
    qed
    then show ?thesis
      using st i At_task_done pos by (auto simp: worker_step_def task_done_def)
  next
    case At_check
    then show ?thesis
      using st i accounted_loop_test [of s i "Some True"] acc by (auto simp: worker_step_def)
  next
    case (Exited r)
    then show ?thesis using st i by (simp add: worker_step_def)
  next
    case (Crashed_in_call n)
    then show ?thesis using st i by (simp add: worker_step_def)
  next
    case Crashed_in_task_done
    then show ?thesis using st i by (simp add: worker_step_def)
  qed
qed

lemma accounted_frame:
  assumes "accounted s" "tasks s' = tasks s" "threads s' = threads s"
    "returns_map s' = returns_map s" "exceptions_map s' = exceptions_map s"
    "id_creator s' = id_creator s" "task_count s' = task_count s"
  shows "accounted s'"
  using assms by (simp add: accounted_def in_flight_def all_ids_def held_ids_def del: mset_upt)

lemma accounted_call_step:
  assumes acc: "accounted s"
  shows "accounted (call_step c s)"
proof (cases c)
  case (Submit f a k)
  then show ?thesis
    using acc
    by (simp add: accounted_def in_flight_def all_ids_def held_ids_def submit_def put_def)
next
  case Stop
  then show ?thesis
    using acc by (auto simp: stop_def split: option.splits intro: accounted_frame)
next
  case Terminate
  then show ?thesis
    using acc by (auto split: option.splits intro: accounted_frame)
qed (use acc in \<open>auto intro: accounted_frame\<close>)

lemma accounted_resume_step:
  assumes acc: "accounted s" and st: "resume_step c s = Some s'"
  shows "accounted s'"
proof (cases c)
  case (In_close_put fr)
  then show ?thesis
    using acc st
    by (auto simp: accounted_def in_flight_def all_ids_def held_ids_def put_def simp del: mset_upt)
next
  case (In_terminate ws)
  show ?thesis
  proof (cases ws)
    case Nil
    then show ?thesis using acc st In_terminate by (auto intro: accounted_frame)
  next
    case (Cons w ws')
    then show ?thesis
      using acc st In_terminate flag_update_measures [where s = s and w = w and c = "In_terminate ws'"]
      by (auto simp: accounted_def all_ids_def simp del: mset_upt)
  qed
next
  case (In_stop_join ws)
  then show ?thesis
    using acc st by (cases ws) (auto split: if_splits intro: accounted_frame)
next
  case (In_close_test fr)
  then show ?thesis
    using acc st by (auto split: sum.splits bool.splits intro: accounted_frame)
qed (use acc st in \<open>auto split: if_splits intro: accounted_frame\<close>)

lemma accounted_step:
  "accounted s \<Longrightarrow> step ev s = Some s' \<Longrightarrow> accounted s'"
  by (cases ev)
     (auto split: if_splits
           intro: accounted_worker_step accounted_call_step accounted_resume_step)

lemma accounted_run:
  "accounted s \<Longrightarrow> run evs s = Some s' \<Longrightarrow> accounted s'"
proof (induction evs arbitrary: s)
  case Nil then show ?case by simp
next
  case (Cons ev evs)
  then show ?case by (auto split: option.splits dest: accounted_step)
qed

section \<open>Frames of a step, the worker collection, the id generator\<close>

lemmas worker_defs = worker_step_def execute_next_task_def execute_task_def loop_test_def
  get_def task_done_def set_pc_def

lemma worker_step_frame:
  assumes "worker_step i s = Some s'"
  shows "i < length (threads s)" and "running (pc (threads s ! i))"
    and "length (threads s') = length (threads s)" and "workers s' = workers s"
    and "id_creator s' = id_creator s" and "caller s' = caller s" and "reply s' = reply s"
    and "\<And>j. j \<noteq> i \<Longrightarrow> threads s' ! j = threads s ! j"
    and "keyboard_interrupted (threads s' ! i) = keyboard_interrupted (threads s ! i)"
    and "run_event s' = run_event s"
proof -
  show i: "i < length (threads s)"
    using assms by (auto simp: worker_step_def split: if_splits)
  show "running (pc (threads s ! i))"
    using assms i by (cases "pc (threads s ! i)") (auto simp: worker_step_def)
  show "length (threads s') = length (threads s)"
    using assms
    by (auto simp: worker_defs
        split: if_splits wpc.splits list.splits item.splits outcome.splits)
  show "workers s' = workers s"
    using assms
    by (auto simp: worker_defs
        split: if_splits wpc.splits list.splits item.splits outcome.splits)
  show "id_creator s' = id_creator s"
    using assms
    by (auto simp: worker_defs
        split: if_splits wpc.splits list.splits item.splits outcome.splits)
  show "caller s' = caller s"
    using assms
    by (auto simp: worker_defs
        split: if_splits wpc.splits list.splits item.splits outcome.splits)
  show "reply s' = reply s"
    using assms
    by (auto simp: worker_defs
        split: if_splits wpc.splits list.splits item.splits outcome.splits)
  show "run_event s' = run_event s"
    using assms
    by (auto simp: worker_defs
        split: if_splits wpc.splits list.splits item.splits outcome.splits)
  show "threads s' ! j = threads s ! j" if "j \<noteq> i" for j
    using assms that
    by (auto simp: worker_defs
        split: if_splits wpc.splits list.splits item.splits outcome.splits)
  show "keyboard_interrupted (threads s' ! i) = keyboard_interrupted (threads s ! i)"
    using assms
    by (auto simp: worker_defs
        split: if_splits wpc.splits list.splits item.splits outcome.splits)
qed


lemma list_ex_nth_upt: "list_ex (\<lambda>w. P (ts ! w)) [0..<length ts] = list_ex P ts"
  unfolding list_ex_iff by (force simp: in_set_conv_nth)

lemma no_live_thread_iff:
  "no_live_thread s \<longleftrightarrow> (\<forall>i<length (threads s). \<not> running (pc (threads s ! i)))"
  unfolding no_live_thread_def list_ex_iff thread_is_alive_def
  by (force simp: in_set_conv_nth)

lemma no_live_thread_no_step:
  "no_live_thread s \<Longrightarrow> worker_step i s = None"
proof (rule ccontr)
  assume n: "no_live_thread s" and "worker_step i s \<noteq> None"
  then obtain s' where "worker_step i s = Some s'" by auto
  from worker_step_frame(1,2) [OF this] n show False
    by (simp add: no_live_thread_iff)
qed

lemma workers_ok_init: "workers_ok (init n p)"
  by (simp add: workers_ok_def init_def)

lemma workers_ok_call_step: "workers_ok s \<Longrightarrow> workers_ok (call_step c s)"
  by (cases c)
     (auto simp: workers_ok_def no_live_thread_def submit_def stop_def split: option.splits)

lemma pc_flag_update:
  "map pc (ts[w := (ts ! w)\<lparr>keyboard_interrupted := b\<rparr>]) = map pc ts"
  using map_pc_flag_update [of "\<lambda>x. x" ts w b] by simp

lemma no_live_thread_cong:
  "map pc (threads s') = map pc (threads s) \<Longrightarrow> no_live_thread s' = no_live_thread s"
proof -
  assume a: "map pc (threads s') = map pc (threads s)"
  have "list_ex thread_is_alive ts = list_ex running (map pc ts)" for ts :: "('a, 'b, 'c, 'd) worker list"
    by (simp add: list_ex_iff thread_is_alive_def)
  then show ?thesis using a by (simp add: no_live_thread_def)
qed

lemma workers_ok_resume_step:
  assumes ok: "workers_ok s" and st: "resume_step c s = Some s'"
  shows "workers_ok s'"
proof (cases c)
  case (In_close_test fr)
  show ?thesis
  proof (cases "workers s")
    case None
    then show ?thesis
      using ok st In_close_test by (auto simp: workers_ok_def is_alive_def no_live_thread_def)
  next
    case (Some ws)
    then have ws: "ws = [0..<length (threads s)]" using ok by (simp add: workers_ok_def)
    have al: "is_alive s = Inr (list_ex thread_is_alive (threads s))"
      using Some ws list_ex_nth_upt [of thread_is_alive "threads s"] by (simp add: is_alive_def)
    show ?thesis
      using st In_close_test al Some ws
      by (cases "list_ex thread_is_alive (threads s)")
         (auto simp: workers_ok_def no_live_thread_def)
  qed
next
  case (In_terminate ws)
  show ?thesis
  proof (cases ws)
    case Nil
    then show ?thesis
      using ok st In_terminate
      by (auto simp: workers_ok_def no_live_thread_def split: option.splits)
  next
    case (Cons w ws')
    let ?t = "(threads s)[w := (threads s ! w)\<lparr>keyboard_interrupted := True\<rparr>]"
    have s': "s' = s\<lparr>threads := ?t, caller := In_terminate ws'\<rparr>"
      using st In_terminate Cons by simp
    have "no_live_thread s' = no_live_thread s"
      by (rule no_live_thread_cong) (simp add: s' pc_flag_update)
    then show ?thesis using ok by (auto simp: workers_ok_def s' split: option.splits)
  qed
next
  case (In_stop_join ws)
  then show ?thesis
    using ok st
    by (cases ws) (auto simp: workers_ok_def no_live_thread_def split: if_splits option.splits)
qed (use ok st in \<open>auto simp: workers_ok_def no_live_thread_def split: if_splits option.splits\<close>)

lemma workers_ok_worker_step:
  assumes ok: "workers_ok s" and st: "worker_step i s = Some s'"
  shows "workers_ok s'"
proof (cases "workers s")
  case None
  then have "no_live_thread s" using ok by (simp add: workers_ok_def)
  then show ?thesis using no_live_thread_no_step [of s i] st by simp
next
  case (Some ws)
  then show ?thesis
    using ok worker_step_frame(3,4) [OF st] by (simp add: workers_ok_def)
qed

lemma workers_ok_step: "workers_ok s \<Longrightarrow> step ev s = Some s' \<Longrightarrow> workers_ok s'"
  by (cases ev)
     (auto split: if_splits
           intro: workers_ok_worker_step workers_ok_call_step workers_ok_resume_step)

lemma workers_ok_run: "workers_ok s \<Longrightarrow> run evs s = Some s' \<Longrightarrow> workers_ok s'"
proof (induction evs arbitrary: s)
  case Nil then show ?case by simp
next
  case (Cons ev evs)
  then show ?case by (auto split: option.splits dest: workers_ok_step)
qed




section \<open>The views and the order of keys\<close>

lemma collect_getitem:
  "set ks \<subseteq> fst ` set d \<Longrightarrow>
     collect (map (getitem d) ks) = Inr (map (\<lambda>k. the (map_of d k)) ks)"
proof (induction ks)
  case Nil then show ?case by simp
next
  case (Cons k ks)
  then have "map_of d k \<noteq> None" by (simp add: map_of_eq_None_iff)
  then obtain v where "map_of d k = Some v" by auto
  with Cons show ?case by (simp add: getitem_def)
qed

lemma view_total: "view d = Inr (map (\<lambda>k. the (map_of d k)) (sort (map fst d)))"
  unfolding view_def by (rule collect_getitem) simp

lemma sort_keys: "sort (map fst d) = map fst (sort_key fst d)"
  by (rule properties_for_sort) (simp_all add: sorted_sort_key)

lemma by_id_lookup:
  assumes "distinct (map fst d)"
  shows "by_id d = map (\<lambda>k. the (map_of d k)) (sort (map fst d))"
proof -
  have "the (map_of d (fst kv)) = snd kv" if "kv \<in> set d" for kv
    using assms that by (cases kv) simp
  then have "map (\<lambda>kv. the (map_of d (fst kv))) (sort_key fst d) = map snd (sort_key fst d)"
    by (intro map_cong) simp_all
  then show ?thesis
    by (simp add: sort_keys by_id_def comp_def)
qed

lemma view_by_id: "distinct (map fst d) \<Longrightarrow> view d = Inr (by_id d)"
  by (simp add: view_total by_id_lookup)

lemma by_id_mset:
  assumes "distinct (map fst d)" and "mset d' = mset d"
  shows "by_id d' = by_id d"
proof -
  have d': "distinct (map fst d')"
    using assms by (metis mset_eq_imp_distinct_iff mset_map)
  have "mset (map fst d') = mset (map fst d)" using assms(2) by (metis mset_map)
  then have k: "sort (map fst d') = sort (map fst d)"
    by (intro properties_for_sort) simp_all
  have "set d' = set d" using assms(2) by (rule mset_eq_setD)
  then have m: "map_of d' = map_of d"
    using assms(1) d' by (intro map_of_inject_set [THEN iffD2]) simp_all
  show ?thesis by (simp add: by_id_lookup [OF assms(1)] by_id_lookup [OF d'] k m)
qed

lemma hd_sort_Min:
  assumes "xs \<noteq> []"
  shows "\<exists>ys. sort xs = Min (set xs) # ys"
proof -
  have ne: "sort xs \<noteq> []" using assms by (metis length_sort length_0_conv)
  then obtain y ys where ys: "sort xs = y # ys" by (cases "sort xs") auto
  have "sorted (y # ys)" using ys by (metis sorted_sort)
  then have le: "\<forall>x\<in>set ys. y \<le> x" by simp
  have "set xs = set (y # ys)" using ys by (metis set_sort)
  then have "Min (set xs) = y" using le by (intro Min_eqI) auto
  then show ?thesis using ys by simp
qed


section \<open>The worker loop on an empty queue\<close>

lemma get_on_empty_queue_ends_thread:
  assumes "i < length (threads s)" and "pc (threads s ! i) = At_get"
    and "items (tasks s) = []"
  shows "step (Worker i) s = Some (set_pc i (Exited None) s)"
    and "\<not> thread_is_alive (threads (set_pc i (Exited None) s) ! i)"
  using assms
  by (simp_all add: worker_step_def execute_next_task_def get_def loop_test_def
        run_breaks_def set_pc_def thread_is_alive_def)

text \<open>
  Claim C1. A worker whose \<open>get\<close> times out on an empty queue should stay in the loop.
  In the code \<open>_execute_next_task\<close> leaves the \<open>except Empty\<close> branch without a
  \<open>return\<close>, so its result is \<open>None\<close>; \<open>run\<close> tests \<open>not None\<close> and breaks, in every
  state, whatever the two stop flags say. On a fresh pool of one worker with nothing
  submitted, the first step of that worker ends its thread: the pool has no live worker
  left.
\<close>

theorem empty_timeout_ends_worker:
  "map_option (map pc \<circ> threads)
     (run [Worker 0] (init 1 False :: (unit, unit, unit, unit) state)) = Some [Exited None]
   \<and> map_option is_alive
     (run [Worker 0] (init 1 False :: (unit, unit, unit, unit) state)) = Some (Inr False)"
  by (simp add: run_simps)

section \<open>\<open>stop\<close>\<close>

lemma stop_always_raises: "call_step Stop s = s\<lparr>reply := Raises AttributeError\<rparr>"
  by (simp add: stop_def hasattr_def executor_attributes_def)

text \<open>
  Claim C2. \<open>stop\<close> should set the shared event and join the workers. The executor stores
  the event as \<open>_run_event\<close> and \<open>stop\<close> reads \<open>self.run_event\<close>, a name the object
  does not have: on a fresh pool of one worker the call raises \<open>AttributeError\<close>, the
  event stays unset and the worker is still running.
\<close>

theorem stop_raises_attribute_error:
  "map_option reply
     (run [Call Stop] (init 1 False :: (unit, unit, unit, unit) state))
     = Some (Raises AttributeError)
   \<and> map_option run_event
     (run [Call Stop] (init 1 False :: (unit, unit, unit, unit) state)) = Some False
   \<and> map_option is_alive
     (run [Call Stop] (init 1 False :: (unit, unit, unit, unit) state)) = Some (Inr True)"
  by (simp add: run_simps)

section \<open>Draining\<close>



section \<open>The ordered views\<close>

lemma reachable_keys_distinct:
  assumes "run evs (init n p) = Some s"
  shows "distinct (map fst (returns_map s))" and "distinct (map fst (exceptions_map s))"
proof -
  have "accounted s" using accounted_run [OF accounted_init assms] .
  then have "distinct (all_ids s)" using ids_distinct [of s] by (simp add: accounted_def del: mset_upt)
  then show "distinct (map fst (returns_map s))" and "distinct (map fst (exceptions_map s))"
    by (simp_all add: all_ids_def)
qed

text \<open>
  Claim C4. For every state of the two dictionaries (keys are unique in a dictionary),
  \<open>returns\<close> and \<open>exceptions\<close> yield the stored values in ascending order of task id,
  and the result is the same for every order in which the entries were inserted, that
  is, for every order in which the workers completed the tasks.
\<close>

theorem views_in_id_order:
  fixes s :: "('a, 'k, 'r, 'e) state"
  assumes "distinct (map fst (returns_map s))" and "distinct (map fst (exceptions_map s))"
  shows "returns s = Inr (by_id (returns_map s))
       \<and> exceptions s = Inr (by_id (exceptions_map s))
       \<and> (\<forall>s' :: ('a, 'k, 'r, 'e) state.
             mset (returns_map s') = mset (returns_map s) \<longrightarrow> returns s' = returns s)
       \<and> (\<forall>s' :: ('a, 'k, 'r, 'e) state.
             mset (exceptions_map s') = mset (exceptions_map s)
               \<longrightarrow> exceptions s' = exceptions s)"
proof -
  have r: "returns t = Inr (by_id (returns_map t))"
    if "distinct (map fst (returns_map t))" for t :: "('a, 'k, 'r, 'e) state"
    using that by (simp add: returns_def view_by_id)
  have e: "exceptions t = Inr (by_id (exceptions_map t))"
    if "distinct (map fst (exceptions_map t))" for t :: "('a, 'k, 'r, 'e) state"
    using that by (simp add: exceptions_def view_by_id)
  have dr: "distinct (map fst (returns_map s'))"
    if "mset (returns_map s') = mset (returns_map s)" for s' :: "('a, 'k, 'r, 'e) state"
    using that assms(1) by (metis mset_eq_imp_distinct_iff mset_map)
  have de: "distinct (map fst (exceptions_map s'))"
    if "mset (exceptions_map s') = mset (exceptions_map s)" for s' :: "('a, 'k, 'r, 'e) state"
    using that assms(2) by (metis mset_eq_imp_distinct_iff mset_map)
  have r': "returns s' = returns s"
    if m: "mset (returns_map s') = mset (returns_map s)" for s' :: "('a, 'k, 'r, 'e) state"
  proof -
    have "by_id (returns_map s') = by_id (returns_map s)"
      using assms(1) m by (rule by_id_mset)
    then show ?thesis using r [OF assms(1)] r [OF dr [OF m]] by simp
  qed
  have e': "exceptions s' = exceptions s"
    if m: "mset (exceptions_map s') = mset (exceptions_map s)" for s' :: "('a, 'k, 'r, 'e) state"
  proof -
    have "by_id (exceptions_map s') = by_id (exceptions_map s)"
      using assms(2) m by (rule by_id_mset)
    then show ?thesis using e [OF assms(2)] e [OF de [OF m]] by simp
  qed
  show ?thesis
  proof (intro conjI allI impI)
    show "returns s = Inr (by_id (returns_map s))" by (rule r [OF assms(1)])
    show "exceptions s = Inr (by_id (exceptions_map s))" by (rule e [OF assms(2)])
    show "returns s' = returns s" if "mset (returns_map s') = mset (returns_map s)"
      for s' :: "('a, 'k, 'r, 'e) state"
      using that by (rule r')
    show "exceptions s' = exceptions s"
      if "mset (exceptions_map s') = mset (exceptions_map s)"
      for s' :: "('a, 'k, 'r, 'e) state"
      using that by (rule e')
  qed
qed

theorem views_in_id_order_witness:
  "returns ((init 0 False :: (unit, unit, nat, nat) state)
      \<lparr>returns_map := [(2, 30), (0, 10), (1, 20)], exceptions_map := [(4, 7), (3, 9)]\<rparr>)
     = Inr [10, 20, 30]
   \<and> exceptions ((init 0 False :: (unit, unit, nat, nat) state)
      \<lparr>returns_map := [(2, 30), (0, 10), (1, 20)], exceptions_map := [(4, 7), (3, 9)]\<rparr>)
     = Inr [9, 7]
   \<and> returns ((init 0 False :: (unit, unit, nat, nat) state)
      \<lparr>returns_map := [(0, 10), (1, 20), (2, 30)]\<rparr>) = Inr [10, 20, 30]"
  using views_in_id_order
    [of "(init 0 False :: (unit, unit, nat, nat) state)
      \<lparr>returns_map := [(2, 30), (0, 10), (1, 20)], exceptions_map := [(4, 7), (3, 9)]\<rparr>"]
  by (simp add: by_id_def init_def returns_def view_def getitem_def)

section \<open>\<open>raise_first\<close>\<close>

text \<open>
  Claim C5. \<open>raise_first\<close> returns normally when no task has failed; when some task has
  failed it raises the error recorded under the lowest failed id, whatever the order in
  which the failures were recorded.
\<close>

theorem raise_first_lowest_id:
  "(exceptions_map s = [] \<longrightarrow> raise_first s = Inr ())
   \<and> (exceptions_map s \<noteq> [] \<longrightarrow>
        (\<exists>e. map_of (exceptions_map s) (Min (fst ` set (exceptions_map s))) = Some e
           \<and> raise_first s = Inl (Task_exception e)))"
proof (cases "exceptions_map s")
  case Nil
  then show ?thesis by (simp add: raise_first_def exceptions_def view_def)
next
  case (Cons kv d)
  let ?d = "exceptions_map s" and ?k = "Min (fst ` set (exceptions_map s))"
  have ne: "map fst ?d \<noteq> []" using Cons by simp
  obtain ks where ks: "sort (map fst ?d) = ?k # ks"
    using hd_sort_Min [OF ne] by auto
  have "?k \<in> set (sort (map fst ?d))" using ks by simp
  then have "?k \<in> fst ` set ?d" by simp
  then have "map_of ?d ?k \<noteq> None" by (simp add: map_of_eq_None_iff)
  then obtain e where e: "map_of ?d ?k = Some e" by auto
  have "raise_first s = Inl (Task_exception e)"
    using e ks by (simp add: raise_first_def exceptions_def view_total)
  then show ?thesis using e Cons by auto
qed


theorem raise_first_lowest_id_witness:
  "raise_first ((init 0 False :: (unit, unit, nat, nat) state)
      \<lparr>exceptions_map := [(4, 7), (3, 9)]\<rparr>) = Inl (Task_exception 9)
   \<and> raise_first (init 0 False :: (unit, unit, nat, nat) state) = Inr ()"
  using raise_first_lowest_id
    [of "(init 0 False :: (unit, unit, nat, nat) state)\<lparr>exceptions_map := [(4, 7), (3, 9)]\<rparr>"]
    raise_first_lowest_id [of "init 0 False :: (unit, unit, nat, nat) state"]
  by (simp add: init_def)

section \<open>\<open>close\<close>\<close>

lemma workers_None_step:
  assumes "workers s = None" and "step ev s = Some s'"
  shows "workers s' = None"
proof (cases ev)
  case (Worker i)
  then show ?thesis using assms worker_step_frame(4) [of i s s'] by simp
next
  case (Call c)
  then show ?thesis
    using assms by (cases c) (auto simp: submit_def stop_def split: if_splits)
next
  case Resume
  have "workers s' = None" if "resume_step c s = Some s'" for c
    using that assms(1)
    by (induction c s rule: resume_step.induct)
       (auto split: if_splits sum.splits bool.splits)
  then show ?thesis using assms Resume by simp
qed

lemma closed_run:
  assumes "workers s = None" and "workers_ok s" and "run evs s = Some s'"
  shows "workers s' = None \<and> no_live_thread s'"
proof -
  have "workers s' = None" using assms(1,3)
  proof (induction evs arbitrary: s)
    case Nil then show ?case by simp
  next
    case (Cons ev evs)
    then show ?case by (auto split: option.splits dest: workers_None_step)
  qed
  moreover have "workers_ok s'" using workers_ok_run [OF assms(2,3)] .
  ultimately show ?thesis by (simp add: workers_ok_def)
qed

lemma reachable_workers_ok: "run evs (init n p) = Some s \<Longrightarrow> workers_ok s"
  using workers_ok_run [OF workers_ok_init] by blast

text \<open>
  Claim C6, as stated, fails. On a pool of one worker, \<open>close\<close> drains, enqueues one
  marker, the worker takes it and ends, and \<open>close\<close> returns; it has set \<open>_workers\<close> to
  \<open>None\<close>, not to an empty collection, and \<open>is_alive\<close> evaluated on the closed executor
  raises \<open>TypeError\<close> instead of yielding \<open>False\<close>.
\<close>

theorem is_alive_after_close_raises:
  "map_option caller
     (run [Call Close, Resume, Resume, Resume, Worker 0, Resume]
        (init 1 False :: (unit, unit, unit, unit) state)) = Some Ready
   \<and> map_option reply
     (run [Call Close, Resume, Resume, Resume, Worker 0, Resume]
        (init 1 False :: (unit, unit, unit, unit) state)) = Some (Returns V_None)
   \<and> map_option is_alive
     (run [Call Close, Resume, Resume, Resume, Worker 0, Resume]
        (init 1 False :: (unit, unit, unit, unit) state)) = Some (Inl TypeError)
   \<and> map_option workers
     (run [Call Close, Resume, Resume, Resume, Worker 0, Resume]
        (init 1 False :: (unit, unit, unit, unit) state)) = Some None"
  by (simp add: run_simps)

text \<open>
  Claim C6, amended. When \<open>close\<close> returns, the last \<open>is_alive\<close> it evaluated was false,
  the worker collection is \<open>None\<close>, no thread of the pool is running, and this stays so
  in every continuation: no worker takes a step again, so the executor cannot be reused.
\<close>

theorem close_leaves_no_live_worker:
  fixes s :: "('a, 'k, 'r, 'e) state"
  assumes "run evs (init n p) = Some s" and "caller s = In_close_test fr"
    and "step Resume s = Some s'" and "caller s' = Ready" and "reply s' = Returns v"
  shows "is_alive s = Inr False \<and> workers s' = None \<and> no_live_thread s'
       \<and> (\<forall>evs' s'' i. run evs' s' = Some s'' \<longrightarrow>
              workers s'' = None \<and> no_live_thread s'' \<and> step (Worker i) s'' = None)"
proof -
  have ok: "workers_ok s'"
    using reachable_workers_ok [OF assms(1)] assms(3) by (rule workers_ok_step)
  have a: "is_alive s = Inr False" and w: "workers s' = None"
    using assms(2-5) by (auto split: sum.splits bool.splits)
  have n: "no_live_thread s'" using ok w by (simp add: workers_ok_def)
  have "workers s'' = None \<and> no_live_thread s'' \<and> step (Worker i) s'' = None"
    if "run evs' s' = Some s''" for evs' s'' i
    using closed_run [OF w ok that] no_live_thread_no_step [of s'' i] by simp
  then show ?thesis using a w n by blast
qed

theorem close_leaves_no_live_worker_witness:
  "\<exists>s s'. run [Call Close, Resume, Resume, Resume, Worker 0]
             (init 1 False :: (unit, unit, unit, unit) state) = Some s
     \<and> caller s = In_close_test By_close \<and> step Resume s = Some s'
     \<and> caller s' = Ready \<and> reply s' = Returns V_None
     \<and> is_alive s = Inr False \<and> workers s' = None \<and> no_live_thread s'"
proof -
  let ?evs = "[Call Close, Resume, Resume, Resume, Worker 0] :: (unit, unit, unit, unit) event list"
  have "\<exists>s s'. run ?evs (init 1 False) = Some s \<and> caller s = In_close_test By_close
          \<and> step Resume s = Some s' \<and> caller s' = Ready \<and> reply s' = Returns V_None"
    by (simp add: run_simps)
  then obtain s s' where h: "run ?evs (init 1 False) = Some s" "caller s = In_close_test By_close"
    "step Resume s = Some s'" "caller s' = Ready" "reply s' = Returns V_None"
    by blast
  from close_leaves_no_live_worker [OF h]
  have "is_alive s = Inr False \<and> workers s' = None \<and> no_live_thread s'" by blast
  with h show ?thesis by blast
qed

section \<open>Markers and the counter of the queue\<close>

lemma length_items: "length xs = length (task_ids xs) + sentinels xs"
  by (induction xs rule: task_ids.induct) simp_all

lemma in_flight_split: "in_flight s = tasks_unmarked s + sentinels_taken s"
  by (simp add: in_flight_def tasks_unmarked_def sentinels_taken_def owed_def sum_list_addf)

text \<open>
  Claim C7, as stated, fails. On a pool of one worker with no task ever submitted,
  after \<open>close\<close> has returned the queue is empty and its counter is 1: the marker was
  counted by \<open>put\<close> and nothing marks it done, so a later \<open>join\<close> would not return.
\<close>

theorem sentinel_left_outstanding:
  "map_option task_count
     (run [Call Close, Resume, Resume, Resume, Worker 0, Resume]
        (init 1 False :: (unit, unit, unit, unit) state)) = Some 0
   \<and> map_option (unfinished_tasks \<circ> tasks)
     (run [Call Close, Resume, Resume, Resume, Worker 0, Resume]
        (init 1 False :: (unit, unit, unit, unit) state)) = Some 1
   \<and> map_option (items \<circ> tasks)
     (run [Call Close, Resume, Resume, Resume, Worker 0, Resume]
        (init 1 False :: (unit, unit, unit, unit) state)) = Some []
   \<and> map_option (join_returns \<circ> tasks)
     (run [Call Close, Resume, Resume, Resume, Worker 0, Resume]
        (init 1 False :: (unit, unit, unit, unit) state)) = Some False"
  by (simp add: run_simps)

text \<open>
  Claim C7, amended. In every reachable state the counter of the queue is the number
  of real tasks still queued or taken and not yet marked done, plus the number of
  markers enqueued so far, whether still queued or already taken by a worker. A task
  leaves the count once, when it is marked done; a marker enters it at \<open>put\<close> and never
  leaves it.
\<close>

theorem pending_count_counts_sentinels:
  fixes s :: "('a, 'k, 'r, 'e) state"
  assumes "run evs (init n p) = Some s"
  shows "unfinished_tasks (tasks s)
           = length (task_ids (items (tasks s))) + tasks_unmarked s
             + sentinels (items (tasks s)) + sentinels_taken s"
proof -
  have "accounted s" using accounted_run [OF accounted_init assms] .
  then show ?thesis
    using length_items [of "items (tasks s)"] in_flight_split [of s]
    by (simp add: accounted_def)
qed

theorem pending_count_counts_sentinels_witness:
  "\<exists>s. run [Call (Submit (\<lambda>a k. Returned a) 5 6), Call Close, Worker 0, Worker 0, Worker 0,
            Resume, Resume, Resume, Resume, Resume, Worker 0, Worker 0]
           (init 1 False :: (nat, nat, nat, nat) state) = Some s
     \<and> unfinished_tasks (tasks s) = 2
     \<and> task_ids (items (tasks s)) = [] \<and> tasks_unmarked s = 0
     \<and> sentinels (items (tasks s)) = 1 \<and> sentinels_taken s = 1"
proof -
  let ?evs = "[Call (Submit (\<lambda>a k. Returned a) 5 6), Call Close, Worker 0, Worker 0, Worker 0,
            Resume, Resume, Resume, Resume, Resume, Worker 0, Worker 0] :: (nat, nat, nat, nat) event list"
  have "\<exists>s. run ?evs (init 1 False) = Some s
     \<and> task_ids (items (tasks s)) = [] \<and> tasks_unmarked s = 0
     \<and> sentinels (items (tasks s)) = 1 \<and> sentinels_taken s = 1"
    by (simp add: run_simps tasks_unmarked_def sentinels_taken_def)
  then obtain s where h: "run ?evs (init 1 False) = Some s"
     "task_ids (items (tasks s)) = []" "tasks_unmarked s = 0"
     "sentinels (items (tasks s)) = 1" "sentinels_taken s = 1"
    by blast
  from pending_count_counts_sentinels [OF h(1)] h(2-5)
  have "unfinished_tasks (tasks s) = 2" by simp
  with h show ?thesis by blast
qed

section \<open>The executor as a context manager\<close>
















section \<open>\<open>submit\<close> on a closed executor\<close>

text \<open>
  Claim C9. Once \<open>close\<close> has dropped the workers, \<open>submit\<close> still returns normally: it
  counts the task, draws the next id and enqueues the tuple, exactly as it does with
  any worker collection in place. No thread is running, and in every continuation no
  worker ever takes a step, so nothing will execute the task.
\<close>

theorem submit_after_close_is_accepted:
  fixes s :: "('a, 'k, 'r, 'e) state"
  assumes "run evs (init n p) = Some s" and "workers s = None" and "caller s = Ready"
  shows "step (Call (Submit f a k)) s
           = Some (s\<lparr>task_count := task_count s + 1, id_creator := Suc (id_creator s),
                    tasks := put (Task (id_creator s) f a k) (tasks s),
                    reply := Returns V_None\<rparr>)
       \<and> (\<forall>ws. step (Call (Submit f a k)) (s\<lparr>workers := ws\<rparr>)
             = Some (s\<lparr>task_count := task_count s + 1, id_creator := Suc (id_creator s),
                      tasks := put (Task (id_creator s) f a k) (tasks s),
                      reply := Returns V_None, workers := ws\<rparr>))
       \<and> no_live_thread s
       \<and> (\<forall>evs' s' i. run (Call (Submit f a k) # evs') s = Some s' \<longrightarrow>
              step (Worker i) s' = None)"
proof -
  have ok: "workers_ok s" using assms(1) by (rule reachable_workers_ok)
  have "step (Worker i) s' = None"
    if "run (Call (Submit f a k) # evs') s = Some s'" for evs' s' i
    using closed_run [OF assms(2) ok that] no_live_thread_no_step [of s' i] by simp
  moreover have "no_live_thread s" using ok assms(2) by (simp add: workers_ok_def)
  ultimately show ?thesis using assms(3) by (simp add: submit_def)
qed

theorem submit_after_close_is_accepted_witness:
  "\<exists>s. run [Call Close, Resume, Resume, Resume, Worker 0, Resume]
           (init 1 False :: (nat, nat, nat, nat) state) = Some s
     \<and> workers s = None \<and> caller s = Ready
     \<and> map_option task_count (step (Call (Submit (\<lambda>a k. Returned a) 5 6)) s) = Some 1
     \<and> map_option (task_ids \<circ> items \<circ> tasks)
          (step (Call (Submit (\<lambda>a k. Returned a) 5 6)) s) = Some [0]
     \<and> map_option reply (step (Call (Submit (\<lambda>a k. Returned a) 5 6)) s)
          = Some (Returns V_None)
     \<and> no_live_thread s"
proof -
  let ?evs = "[Call Close, Resume, Resume, Resume, Worker 0, Resume]
     :: (nat, nat, nat, nat) event list"
  have "\<exists>s. run ?evs (init 1 False) = Some s \<and> workers s = None \<and> caller s = Ready
     \<and> task_count s = 0 \<and> id_creator s = 0 \<and> items (tasks s) = []"
    by (simp add: run_simps)
  then obtain s where h: "run ?evs (init 1 False) = Some s" "workers s = None"
    "caller s = Ready" "task_count s = 0" "id_creator s = 0" "items (tasks s) = []"
    by blast
  from submit_after_close_is_accepted [OF h(1,2,3), of "\<lambda>a k. Returned a" 5 6] h(4,5,6)
  have "map_option task_count (step (Call (Submit (\<lambda>a k. Returned a) 5 6)) s) = Some 1
     \<and> map_option (task_ids \<circ> items \<circ> tasks)
          (step (Call (Submit (\<lambda>a k. Returned a) 5 6)) s) = Some [0]
     \<and> map_option reply (step (Call (Submit (\<lambda>a k. Returned a) 5 6)) s)
          = Some (Returns V_None)
     \<and> no_live_thread s"
    by (simp add: put_def)
  with h show ?thesis by blast
qed

section \<open>Reading the views changes nothing\<close>

text \<open>
  Claim C10. Reading \<open>returns\<close>, reading \<open>exceptions\<close> and calling \<open>raise_first\<close> leave the
  dictionaries, the task counter, the id generator, the queue, the worker collection
  and the threads as they were, also when \<open>raise_first\<close> raises; only the value or the
  exception handed to the caller differs.
\<close>

theorem reading_does_not_mutate:
  fixes s :: "('a, 'k, 'r, 'e) state"
  assumes "caller s = Ready" and "c = Get_returns \<or> c = Get_exceptions \<or> c = Raise_first"
  shows "\<exists>r. step (Call c) s = Some (s\<lparr>reply := r\<rparr>)
           \<and> returns_map (s\<lparr>reply := r\<rparr>) = returns_map s
           \<and> exceptions_map (s\<lparr>reply := r\<rparr>) = exceptions_map s
           \<and> task_count (s\<lparr>reply := r\<rparr>) = task_count s
           \<and> id_creator (s\<lparr>reply := r\<rparr>) = id_creator s
           \<and> tasks (s\<lparr>reply := r\<rparr>) = tasks s
           \<and> workers (s\<lparr>reply := r\<rparr>) = workers s
           \<and> threads (s\<lparr>reply := r\<rparr>) = threads s
           \<and> (c = Get_returns \<longrightarrow> r = reply_of V_returns (returns s))
           \<and> (c = Get_exceptions \<longrightarrow> r = reply_of V_exceptions (exceptions s))
           \<and> (c = Raise_first \<longrightarrow> r = reply_of (\<lambda>u. V_None) (raise_first s))"
  using assms by auto

theorem reading_does_not_mutate_witness:
  "step (Call Raise_first)
      ((init 1 False :: (unit, unit, nat, nat) state)\<lparr>exceptions_map := [(0, 5)]\<rparr>)
     = Some ((init 1 False :: (unit, unit, nat, nat) state)
          \<lparr>exceptions_map := [(0, 5)], reply := Raises (Task_exception 5)\<rparr>)
   \<and> step (Call Get_returns)
      ((init 1 False :: (unit, unit, nat, nat) state)\<lparr>returns_map := [(1, 7), (0, 5)]\<rparr>)
     = Some ((init 1 False :: (unit, unit, nat, nat) state)
          \<lparr>returns_map := [(1, 7), (0, 5)], reply := Returns (V_returns [5, 7])\<rparr>)"
  using reading_does_not_mutate
      [of "(init 1 False :: (unit, unit, nat, nat) state)\<lparr>exceptions_map := [(0, 5)]\<rparr>"
        Raise_first]
    reading_does_not_mutate
      [of "(init 1 False :: (unit, unit, nat, nat) state)\<lparr>returns_map := [(1, 7), (0, 5)]\<rparr>"
        Get_returns]
  by (simp add: init_def reply_of_def raise_first_def exceptions_def returns_def view_def
        getitem_def)

end
